theory Spec2Isabelle
  imports Complex_Main
begin

section \<open>Data model\<close>

text \<open>
  A cell of the board holds the string \<^verbatim>\<open>'X'\<close>, the string \<^verbatim>\<open>'O'\<close> or \<^verbatim>\<open>null\<close>.
  The board is a JavaScript array of cells.
\<close>

text \<open>The two marks, the strings \<^verbatim>\<open>'X'\<close> and \<^verbatim>\<open>'O'\<close>.\<close>

datatype mark = MarkX | MarkO

type_synonym cell = "mark option"

type_synonym board = "cell list"

text \<open>
  Reading \<^verbatim>\<open>squares[i]\<close>. Beyond the end of the array JavaScript yields
  \<^verbatim>\<open>undefined\<close>, which is falsy and \<^verbatim>\<open>== null\<close>, so that every test the
  program makes on it has the outcome it has on \<^verbatim>\<open>null\<close>.
\<close>

definition cell_at :: "board \<Rightarrow> nat \<Rightarrow> cell" where
  "cell_at squares i = (if i < length squares then squares ! i else None)"

text \<open>
  The assignment \<^verbatim>\<open>next[i] = v\<close> on a copy of the array. Past the end
  JavaScript extends the array up to index \<open>i\<close>; the cells in between read as
  \<^verbatim>\<open>undefined\<close>.
\<close>

definition set_cell :: "board \<Rightarrow> nat \<Rightarrow> cell \<Rightarrow> board" where
  "set_cell squares i v =
     (if i < length squares then squares[i := v]
      else squares @ replicate (i - length squares) None @ [v])"

text \<open>The object \<^verbatim>\<open>{ winner, line }\<close> returned by \<^verbatim>\<open>calculateWinner\<close>.\<close>

record win_result =
  winner :: "mark option"
  line :: "(nat \<times> nat \<times> nat) option"

text \<open>JavaScript numbers as far as \<^verbatim>\<open>minimax\<close> uses them: integers and the two infinities.\<close>

datatype jsnum = NegInfinity | Num int | PosInfinity

fun jsnum_less :: "jsnum \<Rightarrow> jsnum \<Rightarrow> bool" where
  "jsnum_less NegInfinity NegInfinity = False"
| "jsnum_less NegInfinity _ = True"
| "jsnum_less (Num a) (Num b) = (a < b)"
| "jsnum_less (Num a) PosInfinity = True"
| "jsnum_less (Num a) NegInfinity = False"
| "jsnum_less PosInfinity _ = False"

text \<open>
  What a move variable can hold: an index, \<^verbatim>\<open>null\<close> (the initial
  \<^verbatim>\<open>bestMove\<close>) or \<^verbatim>\<open>undefined\<close> (a missing property, an array read out of range).
\<close>

datatype jsmove = Undefined | Null | Index nat

text \<open>The object \<^verbatim>\<open>{ score, move }\<close> returned by \<^verbatim>\<open>minimax\<close>.\<close>

record minimax_result =
  score :: jsnum
  move :: jsmove

section \<open>Rules engine\<close>

definition lines :: "(nat \<times> nat \<times> nat) list" where
  "lines = [(0, 1, 2), (3, 4, 5), (6, 7, 8),
            (0, 3, 6), (1, 4, 7), (2, 5, 8),
            (0, 4, 8), (2, 4, 6)]"

text \<open>The test of the \<^verbatim>\<open>if\<close> inside the loop of \<^verbatim>\<open>calculateWinner\<close>.\<close>

fun line_matches :: "board \<Rightarrow> nat \<times> nat \<times> nat \<Rightarrow> bool" where
  "line_matches squares (a, b, c) =
     (cell_at squares a \<noteq> None
      \<and> cell_at squares a = cell_at squares b
      \<and> cell_at squares a = cell_at squares c)"

text \<open>The \<^verbatim>\<open>for (let line of lines)\<close> loop, returning from inside at the first match.\<close>

fun calculateWinner_loop :: "board \<Rightarrow> (nat \<times> nat \<times> nat) list \<Rightarrow> win_result" where
  "calculateWinner_loop squares [] = \<lparr>winner = None, line = None\<rparr>"
| "calculateWinner_loop squares (l # ls) =
     (if line_matches squares l
      then \<lparr>winner = cell_at squares (fst l), line = Some l\<rparr>
      else calculateWinner_loop squares ls)"

definition calculateWinner :: "board \<Rightarrow> win_result" where
  "calculateWinner squares = calculateWinner_loop squares lines"

text \<open>
  \<^verbatim>\<open>squares.map((val, idx) => val == null ? idx : null).filter(idx => idx !== null)\<close>:
  the indices of the empty cells, ascending.
\<close>

definition getAvailableMoves :: "board \<Rightarrow> nat list" where
  "getAvailableMoves squares = filter (\<lambda>idx. squares ! idx = None) [0..<length squares]"

text \<open>\<^verbatim>\<open>squares.filter(Boolean).length\<close>\<close>

definition moveCount :: "board \<Rightarrow> nat" where
  "moveCount squares = length (filter (\<lambda>c. c \<noteq> None) squares)"

text \<open>\<^verbatim>\<open>!winner && moveCount === 9\<close>\<close>

definition isDraw :: "board \<Rightarrow> bool" where
  "isDraw squares = (winner (calculateWinner squares) = None \<and> moveCount squares = 9)"

section \<open>AI move selection\<close>

text \<open>The number of empty cells, the measure on which the search descends.\<close>

definition emptyCells :: "board \<Rightarrow> nat" where
  "emptyCells squares = length (filter (\<lambda>c. c = None) squares)"

text \<open>
  The body of the \<^verbatim>\<open>for (let move of moves)\<close> loop of \<^verbatim>\<open>minimax\<close>, given the score
  of the recursive call: the pair \<^verbatim>\<open>bestScore\<close>, \<^verbatim>\<open>bestMove\<close> is carried as one record.
\<close>

definition better :: "bool \<Rightarrow> nat \<Rightarrow> jsnum \<Rightarrow> minimax_result \<Rightarrow> minimax_result" where
  "better isMaximizing mv sc best =
     (if isMaximizing
      then (if jsnum_less (score best) sc then \<lparr>score = sc, move = Index mv\<rparr> else best)
      else (if jsnum_less sc (score best) then \<lparr>score = sc, move = Index mv\<rparr> else best))"

function minimax :: "mark \<Rightarrow> mark \<Rightarrow> board \<Rightarrow> bool \<Rightarrow> minimax_result" where
  "minimax aiM playerM brd isMaximizing =
     (let result = calculateWinner brd in
      if winner result = Some aiM then \<lparr>score = Num 1, move = Undefined\<rparr>
      else if winner result = Some playerM then \<lparr>score = Num (- 1), move = Undefined\<rparr>
      else if list_all (\<lambda>x. x \<noteq> None) brd then \<lparr>score = Num 0, move = Undefined\<rparr>
      else
        fold (\<lambda>mv best.
                better isMaximizing mv
                  (score (minimax aiM playerM
                            (set_cell brd mv (Some (if isMaximizing then aiM else playerM)))
                            (\<not> isMaximizing)))
                  best)
          (getAvailableMoves brd)
          \<lparr>score = (if isMaximizing then NegInfinity else PosInfinity), move = Null\<rparr>)"
  by pat_completeness auto

lemma emptyCells_set_cell:
  assumes "mv \<in> set (getAvailableMoves brd)"
  shows "emptyCells (set_cell brd mv (Some m)) < emptyCells brd"
proof -
  from assms have lt: "mv < length brd" and emp: "brd ! mv = None"
    by (auto simp: getAvailableMoves_def)
  have split: "brd = take mv brd @ None # drop (Suc mv) brd"
    using lt emp by (metis id_take_nth_drop)
  have upd: "brd[mv := Some m] = take mv brd @ Some m # drop (Suc mv) brd"
    using lt by (simp add: upd_conv_take_nth_drop)
  have "emptyCells brd = emptyCells (take mv brd) + 1 + emptyCells (drop (Suc mv) brd)"
    by (subst split) (simp add: emptyCells_def)
  moreover have "emptyCells (brd[mv := Some m])
      = emptyCells (take mv brd) + emptyCells (drop (Suc mv) brd)"
    by (subst upd) (simp add: emptyCells_def)
  ultimately show ?thesis using lt by (simp add: set_cell_def)
qed

termination minimax
  by (relation "measure (\<lambda>(aiM, playerM, brd, isMaximizing). emptyCells brd)")
     (auto simp: emptyCells_set_cell)

declare minimax.simps [simp del]

text \<open>
  \<^verbatim>\<open>xs[Math.floor(Math.random() * xs.length)]\<close>, with the value \<open>r\<close> that
  \<^verbatim>\<open>Math.random()\<close> returned as a parameter; it lies in the interval from 0 (included)
  to 1 (excluded).
\<close>

definition random_element :: "real \<Rightarrow> nat list \<Rightarrow> jsmove" where
  "random_element r xs =
     (let k = nat \<lfloor>r * real (length xs)\<rfloor>
      in if k < length xs then Index (xs ! k) else Undefined)"

definition getBestAIMove :: "real \<Rightarrow> board \<Rightarrow> mark \<Rightarrow> mark \<Rightarrow> jsmove" where
  "getBestAIMove r squares aiM playerM =
     (let emptyCount = length (getAvailableMoves squares) in
      if emptyCount \<ge> 7 then
        (if cell_at squares 4 = None then Index 4
         else
           let corners = filter (\<lambda>i. cell_at squares i = None) [0, 2, 6, 8] in
           if length corners > 0 then random_element r corners
           else
             let sides = filter (\<lambda>i. cell_at squares i = None) [1, 3, 5, 7] in
             if length sides > 0 then random_element r sides
             else (case getAvailableMoves squares of [] \<Rightarrow> Undefined | i # _ \<Rightarrow> Index i))
      else move (minimax aiM playerM squares True))"

section \<open>Game controller\<close>

datatype game_mode = Pvp | Ai

text \<open>The state of the \<^verbatim>\<open>Game\<close> component: its five \<^verbatim>\<open>useState\<close> cells.\<close>

record game =
  squares :: board
  xIsNext :: bool
  mode :: game_mode
  aiMark :: mark
  isAITurning :: bool

text \<open>The initial values of the state cells.\<close>

definition initial :: game where
  "initial = \<lparr>squares = replicate 9 None, xIsNext = True, mode = Pvp,
              aiMark = MarkO, isAITurning = False\<rparr>"

text \<open>\<^verbatim>\<open>const { winner, line: winningLine } = calculateWinner(squares)\<close>\<close>

definition game_winner :: "game \<Rightarrow> mark option" where
  "game_winner s = winner (calculateWinner (squares s))"

definition canPlayerMove :: "nat \<Rightarrow> game \<Rightarrow> bool" where
  "canPlayerMove idx s =
     (if game_winner s \<noteq> None \<or> isDraw (squares s) then False
      else if mode s = Ai \<and> isAITurning s then False
      else if mode s = Ai \<and> \<not> xIsNext s then False
      else cell_at (squares s) idx = None)"

definition handleSquareClick :: "nat \<Rightarrow> game \<Rightarrow> game" where
  "handleSquareClick idx s =
     (if \<not> canPlayerMove idx s then s
      else s\<lparr>squares := set_cell (squares s) idx (Some (if xIsNext s then MarkX else MarkO)),
             xIsNext := \<not> xIsNext s\<rparr>)"

definition handleRestart :: "game \<Rightarrow> game" where
  "handleRestart s = s\<lparr>squares := replicate 9 None, xIsNext := True, isAITurning := False\<rparr>"

definition handleModeChange :: "game_mode \<Rightarrow> game \<Rightarrow> game" where
  "handleModeChange val s =
     s\<lparr>mode := val, squares := replicate 9 None, xIsNext := True, isAITurning := False\<rparr>"

text \<open>The condition under which the AI effect does anything.\<close>

definition aiEffectEnabled :: "game \<Rightarrow> bool" where
  "aiEffectEnabled s =
     (mode s = Ai \<and> game_winner s = None \<and> \<not> isDraw (squares s) \<and> \<not> xIsNext s)"

text \<open>The synchronous part of the AI effect: it raises the flag and starts the timer.\<close>

definition aiEffect :: "game \<Rightarrow> game" where
  "aiEffect s = (if aiEffectEnabled s then s\<lparr>isAITurning := True\<rparr> else s)"

text \<open>
  The timer callback of the AI effect, \<open>r\<close> being what \<^verbatim>\<open>Math.random()\<close> returns in it.
  With \<^verbatim>\<open>move\<close> being \<^verbatim>\<open>null\<close> the test \<^verbatim>\<open>squares[move] == null\<close> reads a
  missing property and holds, and \<^verbatim>\<open>next[move] = 'O'\<close> sets a property that is no
  cell: the board keeps its cells and the turn goes back to the player.
\<close>

definition aiTimeout :: "real \<Rightarrow> game \<Rightarrow> game" where
  "aiTimeout r s =
     (let mv = getBestAIMove r (squares s) (aiMark s)
                 (if aiMark s = MarkX then MarkO else MarkX);
          s' = (case mv of
                  Undefined \<Rightarrow> s
                | Null \<Rightarrow> s\<lparr>xIsNext := True\<rparr>
                | Index i \<Rightarrow>
                    if cell_at (squares s) i = None
                    then s\<lparr>squares := set_cell (squares s) i (Some MarkO), xIsNext := True\<rparr>
                    else s)
      in s'\<lparr>isAITurning := False\<rparr>)"

text \<open>
  The states the component can be in. The board component renders the nine squares
  \<^verbatim>\<open>row * 3 + col\<close>, so a click carries an index below 9. The timer callback runs only
  while the timer the effect started is pending: any change of the board, the turn or the
  mode clears it, and every such change lowers the flag in the same update.
\<close>

inductive reachable :: "game \<Rightarrow> bool" where
  reach_initial: "reachable initial"
| reach_click: "reachable s \<Longrightarrow> idx < 9 \<Longrightarrow> reachable (handleSquareClick idx s)"
| reach_restart: "reachable s \<Longrightarrow> reachable (handleRestart s)"
| reach_mode: "reachable s \<Longrightarrow> reachable (handleModeChange val s)"
| reach_effect: "reachable s \<Longrightarrow> reachable (aiEffect s)"
| reach_timeout: "reachable s \<Longrightarrow> isAITurning s \<Longrightarrow> aiEffectEnabled s
                  \<Longrightarrow> 0 \<le> r \<Longrightarrow> r < 1 \<Longrightarrow> reachable (aiTimeout r s)"

text \<open>
  How a call ends: with a value, or with a thrown one. \<^verbatim>\<open>getBestAIMove\<close> contains no
  \<^verbatim>\<open>throw\<close> and applies only array methods to arrays, so each of its calls returns.
\<close>

datatype 'a completion = Normal 'a | Throw string

definition getBestAIMove_call :: "real \<Rightarrow> board \<Rightarrow> mark \<Rightarrow> mark \<Rightarrow> jsmove completion" where
  "getBestAIMove_call r brd aiM playerM = Normal (getBestAIMove r brd aiM playerM)"

text \<open>
  The second \<^verbatim>\<open>Game\<close> component (player against player only) keeps two state cells;
  its \<^verbatim>\<open>calculateWinner\<close> and \<^verbatim>\<open>isDraw\<close> are those above, word for word.
\<close>

record pvp_game =
  pvp_squares :: board
  pvp_xIsNext :: bool

definition pvp_handleRestart :: "pvp_game \<Rightarrow> pvp_game" where
  "pvp_handleRestart g = g\<lparr>pvp_squares := replicate 9 None, pvp_xIsNext := True\<rparr>"

text \<open>
  The specification's wording of a win: a triple whose three cells are non-empty and
  identical.
\<close>

fun three_in_line :: "board \<Rightarrow> nat \<times> nat \<times> nat \<Rightarrow> bool" where
  "three_in_line brd (a, b, c) =
     (cell_at brd a \<noteq> None \<and> cell_at brd b \<noteq> None \<and> cell_at brd c \<noteq> None
      \<and> cell_at brd a = cell_at brd b \<and> cell_at brd b = cell_at brd c)"

text \<open>The score \<^verbatim>\<open>minimax\<close> gets back from its recursive call on a move.\<close>

definition childScore :: "mark \<Rightarrow> mark \<Rightarrow> board \<Rightarrow> bool \<Rightarrow> nat \<Rightarrow> jsnum" where
  "childScore aiM playerM brd isMaximizing mv =
     score (minimax aiM playerM
              (set_cell brd mv (Some (if isMaximizing then aiM else playerM)))
              (\<not> isMaximizing))"

text \<open>The boards on which \<^verbatim>\<open>minimax\<close> passes its three early returns and searches.\<close>

definition searching :: "mark \<Rightarrow> mark \<Rightarrow> board \<Rightarrow> bool" where
  "searching aiM playerM brd =
     (winner (calculateWinner brd) \<noteq> Some aiM
      \<and> winner (calculateWinner brd) \<noteq> Some playerM
      \<and> \<not> list_all (\<lambda>x. x \<noteq> None) brd)"

text \<open>The number of cells that hold a given mark.\<close>

definition countMark :: "mark \<Rightarrow> board \<Rightarrow> nat" where
  "countMark m brd = length (filter (\<lambda>c. c = Some m) brd)"

text \<open>A score that is no loss for the searching side: not below 0.\<close>

definition nonlosing :: "jsnum \<Rightarrow> bool" where
  "nonlosing sc = (\<not> jsnum_less sc (Num 0))"

subsection \<open>A checker for positions the AI holds\<close>

text \<open>
  The search visits several thousand boards below a position with seven empty cells. To
  establish that such a position is no loss, it is enough to find one good reply at each
  of the AI's turns and to follow every reply of the player; the functions below do that
  on 9-cell boards, to a bounded depth. They are a means of proof, justified against
  \<^verbatim>\<open>minimax\<close> itself further down.
\<close>

fun winner9 :: "board \<Rightarrow> mark option" where
  "winner9 [a, b, c, d, e, f, g, h, i] =
     (if a \<noteq> None \<and> a = b \<and> a = c then a
      else if d \<noteq> None \<and> d = e \<and> d = f then d
      else if g \<noteq> None \<and> g = h \<and> g = i then g
      else if a \<noteq> None \<and> a = d \<and> a = g then a
      else if b \<noteq> None \<and> b = e \<and> b = h then b
      else if c \<noteq> None \<and> c = f \<and> c = i then c
      else if a \<noteq> None \<and> a = e \<and> a = i then a
      else if c \<noteq> None \<and> c = e \<and> c = g then c
      else None)"
| "winner9 _ = None"

fun succs :: "mark \<Rightarrow> board \<Rightarrow> board list" where
  "succs m [] = []"
| "succs m (c # cs) = (if c = None then [Some m # cs] else []) @ map ((#) c) (succs m cs)"

fun secure :: "nat \<Rightarrow> bool \<Rightarrow> board \<Rightarrow> bool"
  and any_secure :: "nat \<Rightarrow> board list \<Rightarrow> bool"
  and all_secure :: "nat \<Rightarrow> board list \<Rightarrow> bool" where
  "secure 0 isMax brd = False"
| "secure (Suc n) isMax brd =
     (case winner9 brd of
        Some MarkO \<Rightarrow> True
      | Some MarkX \<Rightarrow> False
      | None \<Rightarrow>
          if list_all (\<lambda>x. x \<noteq> None) brd then True
          else if isMax then any_secure n (succs MarkO brd)
          else all_secure n (succs MarkX brd))"
| "any_secure n [] = False"
| "any_secure n (b # bs) = (if secure n False b then True else any_secure n bs)"
| "all_secure n [] = True"
| "all_secure n (b # bs) = (if secure n True b then all_secure n bs else False)"

subsection \<open>Invariants of the controller\<close>

text \<open>The boards after the first click of a game against the AI: one X, eight empty cells.\<close>

definition opening_board :: "board \<Rightarrow> bool" where
  "opening_board brd = (\<exists>i < 9. brd = (replicate 9 None)[i := Some MarkX])"

text \<open>
  The twelve boards that the opening heuristic can produce from those: the centre if it
  is free, else one of the four corners.
\<close>

definition seeds :: "board list" where
  "seeds =
    [ [Some MarkX, None, None, None, Some MarkO, None, None, None, None],
     [None, Some MarkX, None, None, Some MarkO, None, None, None, None],
     [None, None, Some MarkX, None, Some MarkO, None, None, None, None],
     [None, None, None, Some MarkX, Some MarkO, None, None, None, None],
     [None, None, None, None, Some MarkO, Some MarkX, None, None, None],
     [None, None, None, None, Some MarkO, None, Some MarkX, None, None],
     [None, None, None, None, Some MarkO, None, None, Some MarkX, None],
     [None, None, None, None, Some MarkO, None, None, None, Some MarkX],
     [Some MarkO, None, None, None, Some MarkX, None, None, None, None],
     [None, None, Some MarkO, None, Some MarkX, None, None, None, None],
     [None, None, None, None, Some MarkX, None, Some MarkO, None, None],
     [None, None, None, None, Some MarkX, None, None, None, Some MarkO]]"

text \<open>
  What holds of every state of a game against the AI: the board has nine cells and,
  according to whose turn it is, the search scores it as no loss for O, unless the game
  is still at the empty board or at the first click.
\<close>

definition ai_holds :: "game \<Rightarrow> bool" where
  "ai_holds s =
     (length (squares s) = 9
      \<and> (if xIsNext s
         then squares s = replicate 9 None
              \<or> (length (getAvailableMoves (squares s)) \<le> 7
                  \<and> nonlosing (score (minimax MarkO MarkX (squares s) False)))
         else opening_board (squares s)
              \<or> (length (getAvailableMoves (squares s)) < 7
                  \<and> nonlosing (score (minimax MarkO MarkX (squares s) True)))))"

text \<open>X has as many cells as O when X is to move, and one more when O is to move.\<close>

definition balanced :: "game \<Rightarrow> bool" where
  "balanced s =
     (countMark MarkX (squares s)
        = countMark MarkO (squares s) + (if xIsNext s then 0 else 1))"

section \<open>Win detection\<close>

lemma line_matches_three_in_line: "line_matches brd l = three_in_line brd l"
  by (cases l) auto

lemma calculateWinner_loop_find:
  "calculateWinner_loop brd ls =
     (case find (line_matches brd) ls of
        None \<Rightarrow> \<lparr>winner = None, line = None\<rparr>
      | Some l \<Rightarrow> \<lparr>winner = cell_at brd (fst l), line = Some l\<rparr>)"
  by (induction ls) auto

lemma find_line_winner:
  assumes "find (line_matches brd) ls = Some l"
  shows "cell_at brd (fst l) \<noteq> None"
proof -
  from assms have "line_matches brd l" by (auto simp: find_Some_iff)
  then show ?thesis by (cases l) auto
qed

lemma winner_iff_find:
  "winner (calculateWinner brd) \<noteq> None \<longleftrightarrow> find (line_matches brd) lines \<noteq> None"
  by (auto simp: calculateWinner_def calculateWinner_loop_find
           split: option.splits dest: find_line_winner)

text \<open>
  C3. \<^verbatim>\<open>calculateWinner\<close> reports a winner exactly when one of the eight triples
  (rows, then columns, then diagonals) has three non-empty identical cells; the triple it
  returns is the first such one in that order, the winner is the mark on it, and so the
  result is determined by the board.
\<close>

theorem calculateWinner_first_line:
  "length brd = 9 \<Longrightarrow>
   lines = [(0, 1, 2), (3, 4, 5), (6, 7, 8)] @ [(0, 3, 6), (1, 4, 7), (2, 5, 8)]
             @ [(0, 4, 8), (2, 4, 6)]
   \<and> (winner (calculateWinner brd) \<noteq> None \<longleftrightarrow> (\<exists>l \<in> set lines. three_in_line brd l))
   \<and> (\<forall>i < length lines.
        three_in_line brd (lines ! i) \<and> (\<forall>j < i. \<not> three_in_line brd (lines ! j))
        \<longrightarrow> calculateWinner brd
              = \<lparr>winner = cell_at brd (fst (lines ! i)), line = Some (lines ! i)\<rparr>
            \<and> winner (calculateWinner brd) \<noteq> None)
   \<and> ((\<forall>l \<in> set lines. \<not> three_in_line brd l)
        \<longrightarrow> calculateWinner brd = \<lparr>winner = None, line = None\<rparr>)"
proof (intro conjI allI impI)
  show "lines = [(0, 1, 2), (3, 4, 5), (6, 7, 8)] @ [(0, 3, 6), (1, 4, 7), (2, 5, 8)]
                  @ [(0, 4, 8), (2, 4, 6)]"
    by (simp add: lines_def)
next
  show "winner (calculateWinner brd) \<noteq> None \<longleftrightarrow> (\<exists>l \<in> set lines. three_in_line brd l)"
    unfolding winner_iff_find find_None_iff line_matches_three_in_line
    by blast
next
  fix i
  assume i: "i < length lines"
    and first: "three_in_line brd (lines ! i) \<and> (\<forall>j < i. \<not> three_in_line brd (lines ! j))"
  then have f: "find (line_matches brd) lines = Some (lines ! i)"
    unfolding find_Some_iff line_matches_three_in_line by blast
  then show "calculateWinner brd
      = \<lparr>winner = cell_at brd (fst (lines ! i)), line = Some (lines ! i)\<rparr>"
    by (simp add: calculateWinner_def calculateWinner_loop_find)
  from f show "winner (calculateWinner brd) \<noteq> None"
    unfolding winner_iff_find by simp
next
  assume "\<forall>l \<in> set lines. \<not> three_in_line brd l"
  then have "find (line_matches brd) lines = None"
    unfolding find_None_iff line_matches_three_in_line by blast
  then show "calculateWinner brd = \<lparr>winner = None, line = None\<rparr>"
    by (simp add: calculateWinner_def calculateWinner_loop_find)
qed

theorem calculateWinner_first_line_witness:
  "length [Some MarkX, Some MarkO, Some MarkX, Some MarkX, Some MarkO, Some MarkO,
           Some MarkX, None, None] = 9
   \<and> calculateWinner [Some MarkX, Some MarkO, Some MarkX, Some MarkX, Some MarkO, Some MarkO,
                      Some MarkX, None, None]
     = \<lparr>winner = Some MarkX, line = Some (0, 3, 6)\<rparr>"
  using calculateWinner_first_line
    [of "[Some MarkX, Some MarkO, Some MarkX, Some MarkX, Some MarkO, Some MarkO,
          Some MarkX, None, None]"]
  by (simp add: lines_def cell_at_def calculateWinner_def)

section \<open>Draw detection\<close>

lemma length_filter_all: "length (filter P xs) = length xs \<longleftrightarrow> (\<forall>x \<in> set xs. P x)"
proof
  assume eq: "length (filter P xs) = length xs"
  show "\<forall>x \<in> set xs. P x"
  proof (rule ccontr)
    assume "\<not> (\<forall>x \<in> set xs. P x)"
    then obtain x where "x \<in> set xs" "\<not> P x" by blast
    then have "length (filter P xs) < length xs" by (rule length_filter_less)
    with eq show False by simp
  qed
next
  assume "\<forall>x \<in> set xs. P x"
  then show "length (filter P xs) = length xs" by simp
qed

lemma moveCount_full: "moveCount brd = length brd \<longleftrightarrow> (\<forall>c \<in> set brd. c \<noteq> None)"
  unfolding moveCount_def by (rule length_filter_all)

text \<open>
  C8. On a 9-cell board the draw flag holds exactly when there is no winner and every
  cell is occupied; the full board X O X / O X O / O X O has no winner and is a draw.
\<close>

theorem isDraw_iff_full_no_winner:
  "length brd = 9 \<Longrightarrow>
   (isDraw brd \<longleftrightarrow> winner (calculateWinner brd) = None \<and> (\<forall>c \<in> set brd. c \<noteq> None))
   \<and> winner (calculateWinner [Some MarkX, Some MarkO, Some MarkX, Some MarkO, Some MarkX,
                               Some MarkO, Some MarkO, Some MarkX, Some MarkO]) = None
   \<and> isDraw [Some MarkX, Some MarkO, Some MarkX, Some MarkO, Some MarkX,
             Some MarkO, Some MarkO, Some MarkX, Some MarkO]"
proof (intro conjI)
  assume "length brd = 9"
  then show "isDraw brd \<longleftrightarrow> winner (calculateWinner brd) = None \<and> (\<forall>c \<in> set brd. c \<noteq> None)"
    using moveCount_full [of brd] by (simp add: isDraw_def)
next
  show w: "winner (calculateWinner [Some MarkX, Some MarkO, Some MarkX, Some MarkO, Some MarkX,
                               Some MarkO, Some MarkO, Some MarkX, Some MarkO]) = None"
    by (simp add: calculateWinner_def lines_def cell_at_def)
  show "isDraw [Some MarkX, Some MarkO, Some MarkX, Some MarkO, Some MarkX,
             Some MarkO, Some MarkO, Some MarkX, Some MarkO]"
    unfolding isDraw_def using w by (simp add: moveCount_def)
qed

theorem isDraw_iff_full_no_winner_witness:
  "length (replicate 9 (None :: cell)) = 9 \<and> \<not> isDraw (replicate 9 None)"
  using isDraw_iff_full_no_winner [of "replicate 9 None"]
  by (simp add: eval_nat_numeral)

section \<open>Restart\<close>

text \<open>
  C9. From any state whatever, restart yields the empty 9-cell board with X to move and
  the AI flag lowered; that state is ongoing (no winner, no draw), and the mode and the
  AI's mark are those of the state before. The player-against-player component's restart
  likewise yields the empty board with X to move.
\<close>

theorem handleRestart_resets:
  "handleRestart s
     = \<lparr>squares = replicate 9 None, xIsNext = True, mode = mode s, aiMark = aiMark s,
        isAITurning = False\<rparr>
   \<and> game_winner (handleRestart s) = None
   \<and> \<not> isDraw (squares (handleRestart s))
   \<and> pvp_handleRestart g = \<lparr>pvp_squares = replicate 9 None, pvp_xIsNext = True\<rparr>"
proof (intro conjI)
  show "handleRestart s
     = \<lparr>squares = replicate 9 None, xIsNext = True, mode = mode s, aiMark = aiMark s,
        isAITurning = False\<rparr>"
    by (simp add: handleRestart_def)
  show "game_winner (handleRestart s) = None"
    by (simp add: handleRestart_def game_winner_def calculateWinner_def lines_def
          cell_at_def eval_nat_numeral)
  show "\<not> isDraw (squares (handleRestart s))"
    by (simp add: handleRestart_def isDraw_def moveCount_def)
  show "pvp_handleRestart g = \<lparr>pvp_squares = replicate 9 None, pvp_xIsNext = True\<rparr>"
    by (simp add: pvp_handleRestart_def)
qed

section \<open>Rejected clicks\<close>

text \<open>
  C5. A click on an occupied cell, a click once the game is won or drawn, and, in the mode
  against the AI, a click while it is not X's turn each return the state they were given:
  board, turn, mode and flag are unchanged, and the handler has no failing branch.
\<close>

theorem handleSquareClick_rejected:
  "cell_at (squares s) idx \<noteq> None
   \<or> game_winner s \<noteq> None \<or> isDraw (squares s)
   \<or> (mode s = Ai \<and> \<not> xIsNext s)
   \<Longrightarrow> handleSquareClick idx s = s"
  by (auto simp: handleSquareClick_def canPlayerMove_def)

theorem handleSquareClick_rejected_witness:
  "cell_at (squares (handleSquareClick 0 initial)) 0 \<noteq> None
   \<and> handleSquareClick 0 (handleSquareClick 0 initial) = handleSquareClick 0 initial"
  using handleSquareClick_rejected [of "handleSquareClick 0 initial" 0]
  by (simp add: handleSquareClick_def canPlayerMove_def initial_def game_winner_def
        calculateWinner_def lines_def cell_at_def set_cell_def isDraw_def moveCount_def
        eval_nat_numeral)

section \<open>The opening heuristic\<close>

lemma random_element_member:
  assumes "0 \<le> r" and "r < 1" and "xs \<noteq> []"
  shows "\<exists>x \<in> set xs. random_element r xs = Index x"
proof -
  let ?n = "length xs"
  have pos: "0 < real ?n" using assms(3) by simp
  have "r * real ?n < real ?n" using assms(2) pos by simp
  then have "\<lfloor>r * real ?n\<rfloor> < int ?n" by (simp add: floor_less_iff)
  moreover have "0 \<le> \<lfloor>r * real ?n\<rfloor>" using assms(1) by simp
  ultimately have "nat \<lfloor>r * real ?n\<rfloor> < ?n" by linarith
  then show ?thesis by (auto simp: random_element_def Let_def)
qed

lemma random_element_filter:
  assumes "0 \<le> r" and "r < 1" and "\<exists>c \<in> set cs. P c"
  shows "\<exists>c \<in> set cs. P c \<and> random_element r (filter P cs) = Index c"
proof -
  from assms(3) have "filter P cs \<noteq> []" by (simp add: filter_empty_conv)
  from random_element_member [OF assms(1,2) this] show ?thesis by auto
qed

lemma opening_branch:
  assumes "7 \<le> length (getAvailableMoves brd)"
  shows "getBestAIMove r brd aiM playerM =
     (if cell_at brd 4 = None then Index 4
      else if filter (\<lambda>i. cell_at brd i = None) [0, 2, 6, 8] \<noteq> []
        then random_element r (filter (\<lambda>i. cell_at brd i = None) [0, 2, 6, 8])
      else if filter (\<lambda>i. cell_at brd i = None) [1, 3, 5, 7] \<noteq> []
        then random_element r (filter (\<lambda>i. cell_at brd i = None) [1, 3, 5, 7])
      else (case getAvailableMoves brd of [] \<Rightarrow> Undefined | i # _ \<Rightarrow> Index i))"
  using assms by (simp add: getBestAIMove_def Let_def del: filter.simps)

text \<open>
  C7. With at least seven empty cells and a random number in the unit interval,
  \<^verbatim>\<open>getBestAIMove\<close> returns the centre 4 if it is empty; else an empty corner out of
  0, 2, 6, 8 if there is one; else an empty side out of 1, 3, 5, 7 if there is one; else the
  first available index. After X has taken cell 0 of the empty board it returns 4.
\<close>

theorem getBestAIMove_opening:
  assumes "0 \<le> r" and "r < 1" and "7 \<le> length (getAvailableMoves brd)"
  shows "(cell_at brd 4 = None \<longrightarrow> getBestAIMove r brd aiM playerM = Index 4)
    \<and> (cell_at brd 4 \<noteq> None \<and> (\<exists>c \<in> set [0, 2, 6, 8]. cell_at brd c = None)
          \<longrightarrow> (\<exists>c \<in> set [0, 2, 6, 8]. cell_at brd c = None
                 \<and> getBestAIMove r brd aiM playerM = Index c))
    \<and> (cell_at brd 4 \<noteq> None \<and> (\<forall>c \<in> set [0, 2, 6, 8]. cell_at brd c \<noteq> None)
        \<and> (\<exists>c \<in> set [1, 3, 5, 7]. cell_at brd c = None)
          \<longrightarrow> (\<exists>c \<in> set [1, 3, 5, 7]. cell_at brd c = None
                 \<and> getBestAIMove r brd aiM playerM = Index c))
    \<and> (cell_at brd 4 \<noteq> None \<and> (\<forall>c \<in> set [0, 2, 6, 8]. cell_at brd c \<noteq> None)
        \<and> (\<forall>c \<in> set [1, 3, 5, 7]. cell_at brd c \<noteq> None)
          \<longrightarrow> getBestAIMove r brd aiM playerM
                = (case getAvailableMoves brd of [] \<Rightarrow> Undefined | i # _ \<Rightarrow> Index i))
    \<and> getBestAIMove r (set_cell (replicate 9 None) 0 (Some MarkX)) MarkO MarkX = Index 4"
proof (intro conjI impI)
  assume "cell_at brd 4 = None"
  then show "getBestAIMove r brd aiM playerM = Index 4"
    using assms(3) by (simp add: getBestAIMove_def)
next
  assume h: "cell_at brd 4 \<noteq> None \<and> (\<exists>c \<in> set [0, 2, 6, 8]. cell_at brd c = None)"
  then have ne: "filter (\<lambda>i. cell_at brd i = None) [0, 2, 6, 8] \<noteq> []"
    unfolding filter_empty_conv by blast
  from h have "\<exists>c \<in> set [0, 2, 6, 8]. cell_at brd c = None" by simp
  from random_element_filter [OF assms(1,2) this]
  obtain c where c: "c \<in> set [0, 2, 6, 8]" "cell_at brd c = None"
    "random_element r (filter (\<lambda>i. cell_at brd i = None) [0, 2, 6, 8]) = Index c"
    by blast
  have "getBestAIMove r brd aiM playerM
      = random_element r (filter (\<lambda>i. cell_at brd i = None) [0, 2, 6, 8])"
    using h ne unfolding opening_branch [OF assms(3)]
    by (auto simp del: filter.simps)
  with c show "\<exists>c \<in> set [0, 2, 6, 8]. cell_at brd c = None
      \<and> getBestAIMove r brd aiM playerM = Index c"
    by metis
next
  assume h: "cell_at brd 4 \<noteq> None \<and> (\<forall>c \<in> set [0, 2, 6, 8]. cell_at brd c \<noteq> None)
      \<and> (\<exists>c \<in> set [1, 3, 5, 7]. cell_at brd c = None)"
  then have nc: "filter (\<lambda>i. cell_at brd i = None) [0, 2, 6, 8] = []"
    unfolding filter_empty_conv by blast
  from h have ne: "filter (\<lambda>i. cell_at brd i = None) [1, 3, 5, 7] \<noteq> []"
    unfolding filter_empty_conv by blast
  from h have "\<exists>c \<in> set [1, 3, 5, 7]. cell_at brd c = None" by simp
  from random_element_filter [OF assms(1,2) this]
  obtain c where c: "c \<in> set [1, 3, 5, 7]" "cell_at brd c = None"
    "random_element r (filter (\<lambda>i. cell_at brd i = None) [1, 3, 5, 7]) = Index c"
    by blast
  have "getBestAIMove r brd aiM playerM
      = random_element r (filter (\<lambda>i. cell_at brd i = None) [1, 3, 5, 7])"
    using h nc ne unfolding opening_branch [OF assms(3)]
    by (auto simp del: filter.simps)
  with c show "\<exists>c \<in> set [1, 3, 5, 7]. cell_at brd c = None
      \<and> getBestAIMove r brd aiM playerM = Index c"
    by metis
next
  assume h: "cell_at brd 4 \<noteq> None \<and> (\<forall>c \<in> set [0, 2, 6, 8]. cell_at brd c \<noteq> None)
      \<and> (\<forall>c \<in> set [1, 3, 5, 7]. cell_at brd c \<noteq> None)"
  then have nc: "filter (\<lambda>i. cell_at brd i = None) [0, 2, 6, 8] = []"
    unfolding filter_empty_conv by blast
  from h have ns: "filter (\<lambda>i. cell_at brd i = None) [1, 3, 5, 7] = []"
    unfolding filter_empty_conv by blast
  show "getBestAIMove r brd aiM playerM
      = (case getAvailableMoves brd of [] \<Rightarrow> Undefined | i # _ \<Rightarrow> Index i)"
    using h nc ns unfolding opening_branch [OF assms(3)]
    by (auto simp del: filter.simps)
next
  show "getBestAIMove r (set_cell (replicate 9 None) 0 (Some MarkX)) MarkO MarkX = Index 4"
    by (simp add: getBestAIMove_def set_cell_def getAvailableMoves_def cell_at_def
          eval_nat_numeral)
qed

theorem getBestAIMove_opening_witness:
  "(0::real) \<le> 1 / 2 \<and> (1::real) / 2 < 1
   \<and> 7 \<le> length (getAvailableMoves
        [None, None, None, None, Some MarkX, None, None, None, None])
   \<and> (\<exists>c \<in> set [0, 2, 6, 8].
        getBestAIMove (1 / 2) [None, None, None, None, Some MarkX, None, None, None, None]
          MarkO MarkX = Index c)"
  using getBestAIMove_opening
    [of "1 / 2" "[None, None, None, None, Some MarkX, None, None, None, None]" MarkO MarkX]
  by (simp add: getAvailableMoves_def cell_at_def eval_nat_numeral)

section \<open>The search loop\<close>

lemma jsnum_less_irrefl: "\<not> jsnum_less a a"
  by (cases a) auto

lemma jsnum_less_trans: "jsnum_less a b \<Longrightarrow> jsnum_less b c \<Longrightarrow> jsnum_less a c"
  by (cases a; cases b; cases c) auto

lemma jsnum_not_less_trans:
  "\<not> jsnum_less a b \<Longrightarrow> \<not> jsnum_less b c \<Longrightarrow> \<not> jsnum_less a c"
  by (cases a; cases b; cases c) auto

lemma jsnum_less_not_less: "jsnum_less a b \<Longrightarrow> \<not> jsnum_less b a"
  by (cases a; cases b) auto

text \<open>The loop either keeps the record it started with or ends on one of the moves.\<close>

lemma fold_better_cases:
  "fold (\<lambda>mv. better isMax mv (f mv)) ms best = best
   \<or> (\<exists>m \<in> set ms. fold (\<lambda>mv. better isMax mv (f mv)) ms best
                       = \<lparr>score = f m, move = Index m\<rparr>)"
proof (induction ms arbitrary: best)
  case Nil
  show ?case by simp
next
  case (Cons m ms)
  from Cons [of "better isMax m (f m) best"] show ?case
    by (auto simp: better_def split: if_splits)
qed

lemma fold_better_first:
  assumes "ms \<noteq> []"
    and "isMax \<Longrightarrow> jsnum_less (score best) (f (hd ms))"
    and "\<not> isMax \<Longrightarrow> jsnum_less (f (hd ms)) (score best)"
  shows "\<exists>m \<in> set ms. fold (\<lambda>mv. better isMax mv (f mv)) ms best
           = \<lparr>score = f m, move = Index m\<rparr>"
proof -
  from assms(1) obtain m ms' where ms: "ms = m # ms'" by (cases ms) auto
  have step: "better isMax m (f m) best = \<lparr>score = f m, move = Index m\<rparr>"
    using assms(2,3) by (cases isMax) (simp_all add: better_def ms)
  from fold_better_cases [of isMax f ms' "\<lparr>score = f m, move = Index m\<rparr>"]
  show ?thesis by (auto simp: ms step)
qed

lemma fold_max_ge_init:
  "\<not> jsnum_less (score (fold (\<lambda>mv. better True mv (f mv)) ms best)) (score best)"
proof (induction ms arbitrary: best)
  case Nil
  show ?case by (simp add: jsnum_less_irrefl)
next
  case (Cons m ms)
  have a: "\<not> jsnum_less (score (better True m (f m) best)) (score best)"
    by (simp add: better_def jsnum_less_irrefl jsnum_less_not_less)
  note b = Cons [of "better True m (f m) best"]
  from jsnum_not_less_trans [OF b a] show ?case by simp
qed

lemma fold_max_ge_child:
  "m \<in> set ms \<Longrightarrow> \<not> jsnum_less (score (fold (\<lambda>mv. better True mv (f mv)) ms best)) (f m)"
proof (induction ms arbitrary: best)
  case Nil
  then show ?case by simp
next
  case (Cons a ms)
  show ?case
  proof (cases "m = a")
    case True
    have a: "\<not> jsnum_less (score (better True a (f a) best)) (f a)"
      by (simp add: better_def jsnum_less_irrefl)
    note b = fold_max_ge_init [of f ms "better True a (f a) best"]
    from jsnum_not_less_trans [OF b a] show ?thesis by (simp add: True)
  next
    case False
    with Cons.prems have "m \<in> set ms" by simp
    from Cons.IH [OF this] show ?thesis by simp
  qed
qed

lemma fold_min_le_init:
  "\<not> jsnum_less (score best) (score (fold (\<lambda>mv. better False mv (f mv)) ms best))"
proof (induction ms arbitrary: best)
  case Nil
  show ?case by (simp add: jsnum_less_irrefl)
next
  case (Cons m ms)
  have a: "\<not> jsnum_less (score best) (score (better False m (f m) best))"
    by (simp add: better_def jsnum_less_irrefl jsnum_less_not_less)
  note b = Cons [of "better False m (f m) best"]
  from jsnum_not_less_trans [OF a b] show ?case by simp
qed

lemma fold_min_le_child:
  "m \<in> set ms \<Longrightarrow> \<not> jsnum_less (f m) (score (fold (\<lambda>mv. better False mv (f mv)) ms best))"
proof (induction ms arbitrary: best)
  case Nil
  then show ?case by simp
next
  case (Cons a ms)
  show ?case
  proof (cases "m = a")
    case True
    have a: "\<not> jsnum_less (f a) (score (better False a (f a) best))"
      by (simp add: better_def jsnum_less_irrefl)
    note b = fold_min_le_init [of "better False a (f a) best" f ms]
    from jsnum_not_less_trans [OF a b] show ?thesis by (simp add: True)
  next
    case False
    with Cons.prems have "m \<in> set ms" by simp
    from Cons.IH [OF this] show ?thesis by simp
  qed
qed

section \<open>Properties of the search\<close>

lemma minimax_searching:
  assumes "searching aiM playerM brd"
  shows "minimax aiM playerM brd isMax =
     fold (\<lambda>mv. better isMax mv (childScore aiM playerM brd isMax mv))
       (getAvailableMoves brd)
       \<lparr>score = (if isMax then NegInfinity else PosInfinity), move = Null\<rparr>"
proof -
  have "(\<lambda>mv. better isMax mv (childScore aiM playerM brd isMax mv))
      = (\<lambda>mv. better isMax mv
                 (score (minimax aiM playerM
                           (set_cell brd mv (Some (if isMax then aiM else playerM)))
                           (\<not> isMax))))"
    by (simp add: childScore_def)
  then show ?thesis
    using assms by (subst minimax.simps) (simp add: Let_def searching_def)
qed

lemma minimax_not_searching_eq:
  assumes "\<not> searching aiM playerM brd"
  shows "minimax aiM playerM brd isMax =
     (if winner (calculateWinner brd) = Some aiM then \<lparr>score = Num 1, move = Undefined\<rparr>
      else if winner (calculateWinner brd) = Some playerM
        then \<lparr>score = Num (- 1), move = Undefined\<rparr>
      else \<lparr>score = Num 0, move = Undefined\<rparr>)"
  using assms by (subst minimax.simps) (auto simp: Let_def searching_def)

lemma minimax_not_searching:
  assumes "\<not> searching aiM playerM brd"
  shows "move (minimax aiM playerM brd isMax) = Undefined"
    and "score (minimax aiM playerM brd isMax) \<in> {Num (- 1), Num 0, Num 1}"
  unfolding minimax_not_searching_eq [OF assms] by simp_all

lemma getAvailableMoves_nonempty:
  assumes "\<not> list_all (\<lambda>x. x \<noteq> None) brd"
  shows "getAvailableMoves brd \<noteq> []"
proof -
  from assms obtain c where "c \<in> set brd" "c = None"
    by (auto simp: list_all_iff)
  then obtain i where "i < length brd" "brd ! i = None"
    by (auto simp: in_set_conv_nth)
  then have "i \<in> set (getAvailableMoves brd)"
    by (simp add: getAvailableMoves_def)
  then show ?thesis by auto
qed

lemma getAvailableMoves_member:
  "mv \<in> set (getAvailableMoves brd) \<longleftrightarrow> mv < length brd \<and> brd ! mv = None"
  by (auto simp: getAvailableMoves_def)

text \<open>Every score the search returns is \<open>-1\<close>, \<open>0\<close> or \<open>1\<close>: the infinities never leave the loop.\<close>

lemma minimax_score_finite:
  "score (minimax aiM playerM brd isMax) \<in> {Num (- 1), Num 0, Num 1}"
proof (induction aiM playerM brd isMax rule: minimax.induct)
  case (1 aiM playerM brd isMax)
  show ?case
  proof (cases "searching aiM playerM brd")
    case False
    then show ?thesis by (rule minimax_not_searching)
  next
    case True
    let ?f = "childScore aiM playerM brd isMax"
    let ?ms = "getAvailableMoves brd"
    have fin: "?f mv \<in> {Num (- 1), Num 0, Num 1}" if "mv \<in> set ?ms" for mv
      unfolding childScore_def
      using "1.IH" [OF refl _ _ _ that] True by (simp add: searching_def)
    from True have ne: "?ms \<noteq> []"
      by (simp add: searching_def getAvailableMoves_nonempty)
    then have "hd ?ms \<in> set ?ms" by simp
    from fin [OF this] have
      "isMax \<Longrightarrow> jsnum_less NegInfinity (?f (hd ?ms))"
      "\<not> isMax \<Longrightarrow> jsnum_less (?f (hd ?ms)) PosInfinity"
      by auto
    with fold_better_first [of ?ms isMax
        "\<lparr>score = (if isMax then NegInfinity else PosInfinity), move = Null\<rparr>" ?f] ne
    obtain m where "m \<in> set ?ms"
      "minimax aiM playerM brd isMax = \<lparr>score = ?f m, move = Index m\<rparr>"
      unfolding minimax_searching [OF True] by auto
    with fin show ?thesis by simp
  qed
qed

text \<open>While it searches, the result is one of the available moves with that move's score.\<close>

lemma minimax_searching_move:
  assumes "searching aiM playerM brd"
  shows "\<exists>m \<in> set (getAvailableMoves brd).
           minimax aiM playerM brd isMax
             = \<lparr>score = childScore aiM playerM brd isMax m, move = Index m\<rparr>"
proof -
  let ?f = "childScore aiM playerM brd isMax"
  let ?ms = "getAvailableMoves brd"
  from assms have ne: "?ms \<noteq> []"
    by (simp add: searching_def getAvailableMoves_nonempty)
  have "?f (hd ?ms) \<in> {Num (- 1), Num 0, Num 1}"
    unfolding childScore_def by (rule minimax_score_finite)
  then have
    "isMax \<Longrightarrow> jsnum_less NegInfinity (?f (hd ?ms))"
    "\<not> isMax \<Longrightarrow> jsnum_less (?f (hd ?ms)) PosInfinity"
    by auto
  with fold_better_first [of ?ms isMax
      "\<lparr>score = (if isMax then NegInfinity else PosInfinity), move = Null\<rparr>" ?f] ne
  show ?thesis unfolding minimax_searching [OF assms] by auto
qed

lemma minimax_move_not_Null: "move (minimax aiM playerM brd isMax) \<noteq> Null"
proof (cases "searching aiM playerM brd")
  case True
  from minimax_searching_move [OF this, of isMax] show ?thesis by auto
next
  case False
  then show ?thesis by (simp add: minimax_not_searching)
qed

section \<open>The checker against the search\<close>

lemma list9:
  assumes "length (brd :: 'a list) = 9"
  obtains a b c d e f g h i where "brd = [a, b, c, d, e, f, g, h, i]"
  using assms by (auto simp: eval_nat_numeral length_Suc_conv)

lemma winner9_eq:
  assumes "length brd = 9"
  shows "winner (calculateWinner brd) = winner9 brd"
proof -
  from assms obtain a b c d e f g h i where "brd = [a, b, c, d, e, f, g, h, i]"
    by (rule list9)
  then show ?thesis
    unfolding calculateWinner_def lines_def
    by (simp add: cell_at_def if_distrib [of winner] split del: if_split cong: if_cong)
qed

lemma getAvailableMoves_Cons:
  "getAvailableMoves (c # cs)
     = (if c = None then [0] else []) @ map Suc (getAvailableMoves cs)"
proof -
  have "[0..<length (c # cs)] = 0 # map Suc [0..<length cs]"
    by (simp add: upt_conv_Cons map_Suc_upt del: upt_Suc)
  then show ?thesis
    by (simp add: getAvailableMoves_def filter_map comp_def del: upt_Suc)
qed

lemma set_cell_Cons_0: "set_cell (c # cs) 0 v = v # cs"
  by (simp add: set_cell_def)

lemma set_cell_Cons_Suc: "set_cell (c # cs) (Suc i) v = c # set_cell cs i v"
  by (simp add: set_cell_def)

lemma succs_eq:
  "succs m brd = map (\<lambda>i. set_cell brd i (Some m)) (getAvailableMoves brd)"
proof (induction brd)
  case Nil
  show ?case by (simp add: getAvailableMoves_def)
next
  case (Cons c cs)
  show ?case
    by (simp add: getAvailableMoves_Cons Cons set_cell_Cons_0 set_cell_Cons_Suc comp_def)
qed

lemma any_secure_iff: "any_secure n bs \<longleftrightarrow> (\<exists>b \<in> set bs. secure n False b)"
  by (induction bs) auto

lemma all_secure_iff: "all_secure n bs \<longleftrightarrow> (\<forall>b \<in> set bs. secure n True b)"
  by (induction bs) auto

lemma length_set_cell: "i < length brd \<Longrightarrow> length (set_cell brd i v) = length brd"
  by (simp add: set_cell_def)

lemma nonlosing_mono: "\<not> jsnum_less a b \<Longrightarrow> nonlosing b \<Longrightarrow> nonlosing a"
  unfolding nonlosing_def by (rule jsnum_not_less_trans)

lemma minimax_max_ge_child:
  assumes "searching aiM playerM brd" and "m \<in> set (getAvailableMoves brd)"
  shows "\<not> jsnum_less (score (minimax aiM playerM brd True))
            (score (minimax aiM playerM (set_cell brd m (Some aiM)) False))"
  using fold_max_ge_child [OF assms(2), of "childScore aiM playerM brd True"]
  unfolding minimax_searching [OF assms(1)] by (simp add: childScore_def)

lemma minimax_min_le_child:
  assumes "searching aiM playerM brd" and "m \<in> set (getAvailableMoves brd)"
  shows "\<not> jsnum_less (score (minimax aiM playerM (set_cell brd m (Some playerM)) True))
            (score (minimax aiM playerM brd False))"
  using fold_min_le_child [OF assms(2), of "childScore aiM playerM brd False"]
  unfolding minimax_searching [OF assms(1)] by (simp add: childScore_def)

lemma minimax_max_step:
  assumes "searching aiM playerM brd"
    and "nonlosing (score (minimax aiM playerM brd True))"
  shows "\<exists>m \<in> set (getAvailableMoves brd).
           move (minimax aiM playerM brd True) = Index m
           \<and> nonlosing (score (minimax aiM playerM (set_cell brd m (Some aiM)) False))"
proof -
  from minimax_searching_move [OF assms(1), of True]
  obtain m where m: "m \<in> set (getAvailableMoves brd)"
    "minimax aiM playerM brd True
       = \<lparr>score = childScore aiM playerM brd True m, move = Index m\<rparr>"
    by blast
  with assms(2) have "nonlosing (childScore aiM playerM brd True m)" by simp
  with m show ?thesis by (auto simp: childScore_def)
qed

lemma minimax_min_step:
  assumes "searching aiM playerM brd"
    and "nonlosing (score (minimax aiM playerM brd False))"
    and "m \<in> set (getAvailableMoves brd)"
  shows "nonlosing (score (minimax aiM playerM (set_cell brd m (Some playerM)) True))"
  using nonlosing_mono [OF minimax_min_le_child [OF assms(1,3)] assms(2)] .

lemma minimax_lost:
  assumes "winner (calculateWinner brd) = Some playerM" and "aiM \<noteq> playerM"
  shows "\<not> nonlosing (score (minimax aiM playerM brd isMax))"
proof -
  from assms have "\<not> searching aiM playerM brd" by (simp add: searching_def)
  from minimax_not_searching_eq [OF this] assms show ?thesis
    by (simp add: nonlosing_def)
qed

lemma secure_sound:
  "length brd = 9 \<Longrightarrow> secure n isMax brd
   \<Longrightarrow> nonlosing (score (minimax MarkO MarkX brd isMax))"
proof (induction n arbitrary: brd isMax)
  case 0
  then show ?case by simp
next
  case (Suc n)
  note len = Suc.prems(1)
  note w9 = winner9_eq [OF len]
  show ?case
  proof (cases "searching MarkO MarkX brd")
    case False
    from Suc.prems(2) have "winner9 brd \<noteq> Some MarkX"
      by (auto split: option.splits mark.splits)
    with minimax_not_searching_eq [OF False, of isMax] w9 show ?thesis
      by (simp add: nonlosing_def)
  next
    case True
    then have w: "winner9 brd = None" and nf: "\<not> list_all (\<lambda>x. x \<noteq> None) brd"
      unfolding searching_def w9 by (cases "winner9 brd"; auto intro: mark.exhaust)+
    show ?thesis
    proof (cases isMax)
      case True
      with Suc.prems(2) w nf have "any_secure n (succs MarkO brd)" by simp
      then obtain m where m: "m \<in> set (getAvailableMoves brd)"
        and sec: "secure n False (set_cell brd m (Some MarkO))"
        by (auto simp: any_secure_iff succs_eq)
      from m have "m < length brd" by (simp add: getAvailableMoves_member)
      then have "length (set_cell brd m (Some MarkO)) = 9"
        using len by (simp add: length_set_cell)
      from Suc.IH [OF this sec]
      have "nonlosing (score (minimax MarkO MarkX (set_cell brd m (Some MarkO)) False))" .
      from nonlosing_mono [OF minimax_max_ge_child [OF \<open>searching MarkO MarkX brd\<close> m] this]
      show ?thesis using True by simp
    next
      case False
      with Suc.prems(2) w nf have all: "all_secure n (succs MarkX brd)" by simp
      from minimax_searching_move [OF \<open>searching MarkO MarkX brd\<close>, of False]
      obtain m where m: "m \<in> set (getAvailableMoves brd)"
        and res: "minimax MarkO MarkX brd False
          = \<lparr>score = childScore MarkO MarkX brd False m, move = Index m\<rparr>"
        by blast
      from all m have sec: "secure n True (set_cell brd m (Some MarkX))"
        by (auto simp: all_secure_iff succs_eq)
      from m have "m < length brd" by (simp add: getAvailableMoves_member)
      then have "length (set_cell brd m (Some MarkX)) = 9"
        using len by (simp add: length_set_cell)
      from Suc.IH [OF this sec] show ?thesis
        using False by (simp add: res childScore_def)
    qed
  qed
qed



section \<open>The blocking scenario\<close>

text \<open>
  C2, as stated: on the board X X _ / O O _ / _ _ _ with five empty cells, the search for
  O is claimed to return index 5. It does not.
\<close>

theorem getBestAIMove_scenario_not_5:
  "getBestAIMove 0
     [Some MarkX, Some MarkX, None, Some MarkO, Some MarkO, None, None, None, None]
     MarkO MarkX \<noteq> Index 5"
  by code_simp

text \<open>
  C2, amended: on that board, which has five empty cells, the search returns index 2 with
  score 1, whatever the random number. Index 2 is the cell where X would complete the top
  row; the moves are tried in ascending order and a later move replaces the best one only
  on a strictly greater score, so the immediate win at 5, which also scores 1, is not taken.
\<close>

theorem getBestAIMove_scenario_2:
  "length (getAvailableMoves
     [Some MarkX, Some MarkX, None, Some MarkO, Some MarkO, None, None, None, None]) = 5
   \<and> getBestAIMove r
       [Some MarkX, Some MarkX, None, Some MarkO, Some MarkO, None, None, None, None]
       MarkO MarkX = Index 2
   \<and> minimax MarkO MarkX
       [Some MarkX, Some MarkX, None, Some MarkO, Some MarkO, None, None, None, None] True
       = \<lparr>score = Num 1, move = Index 2\<rparr>
   \<and> childScore MarkO MarkX
       [Some MarkX, Some MarkX, None, Some MarkO, Some MarkO, None, None, None, None] True 5
       = Num 1
   \<and> winner (calculateWinner (set_cell
       [Some MarkX, Some MarkX, None, Some MarkO, Some MarkO, None, None, None, None]
       2 (Some MarkX))) = Some MarkX"
  by code_simp

section \<open>The search on a finished board\<close>

lemma length_getAvailableMoves: "length (getAvailableMoves brd) = emptyCells brd"
proof (induction brd)
  case Nil
  show ?case by (simp add: getAvailableMoves_def emptyCells_def)
next
  case (Cons c cs)
  have "emptyCells (c # cs) = (if c = None then 1 else 0) + emptyCells cs"
    by (simp add: emptyCells_def)
  with Cons show ?case by (simp add: getAvailableMoves_Cons)
qed

lemma won_few_empty:
  assumes "length brd = 9" and "winner (calculateWinner brd) \<noteq> None"
  shows "length (getAvailableMoves brd) < 7"
proof -
  from assms(1) obtain a b c d e f g h i where brd: "brd = [a, b, c, d, e, f, g, h, i]"
    by (rule list9)
  from assms(2) obtain l where "l \<in> set lines" and "line_matches brd l"
    unfolding winner_iff_find find_None_iff by blast
  then have "emptyCells brd < 7"
    unfolding brd lines_def by (auto simp: cell_at_def emptyCells_def)
  then show ?thesis by (simp add: length_getAvailableMoves)
qed

lemma full_no_empty:
  assumes "\<forall>c \<in> set brd. c \<noteq> None"
  shows "getAvailableMoves brd = []"
  using assms by (auto simp: getAvailableMoves_def filter_empty_conv)

lemma finished_not_searching:
  assumes "aiM \<noteq> playerM"
    and "winner (calculateWinner brd) \<noteq> None \<or> (\<forall>c \<in> set brd. c \<noteq> None)"
  shows "\<not> searching aiM playerM brd"
proof -
  have marks: "m = aiM \<or> m = playerM" for m
    using assms(1) by (cases m; cases aiM; cases playerM) auto
  from assms(2) show ?thesis
  proof
    assume "winner (calculateWinner brd) \<noteq> None"
    then obtain m where "winner (calculateWinner brd) = Some m" by auto
    with marks [of m] show ?thesis by (auto simp: searching_def)
  next
    assume "\<forall>c \<in> set brd. c \<noteq> None"
    then show ?thesis by (simp add: searching_def list_all_iff)
  qed
qed

lemma finished_no_move:
  assumes "length brd = 9" and "aiM \<noteq> playerM"
    and "winner (calculateWinner brd) \<noteq> None \<or> (\<forall>c \<in> set brd. c \<noteq> None)"
  shows "getBestAIMove r brd aiM playerM = Undefined"
proof -
  have "length (getAvailableMoves brd) < 7"
    using assms(3) won_few_empty [OF assms(1)] full_no_empty [of brd] by auto
  then have "getBestAIMove r brd aiM playerM = move (minimax aiM playerM brd True)"
    by (simp add: getBestAIMove_def)
  with finished_not_searching [OF assms(2,3)] show ?thesis
    by (simp add: minimax_not_searching)
qed

text \<open>
  C6, as stated: \<^verbatim>\<open>getBestAIMove\<close> is claimed to fail with an error on a full board.
  On the full drawn board the call returns, with the value \<^verbatim>\<open>undefined\<close>.
\<close>

theorem getBestAIMove_full_returns:
  "getBestAIMove_call 0
     [Some MarkX, Some MarkO, Some MarkX, Some MarkO, Some MarkX,
      Some MarkO, Some MarkO, Some MarkX, Some MarkO]
     MarkO MarkX = Normal Undefined"
  unfolding getBestAIMove_call_def by code_simp

text \<open>
  C6, amended: on a 9-cell board that is full or already won, with two different marks,
  \<^verbatim>\<open>getBestAIMove\<close> returns \<^verbatim>\<open>undefined\<close> and throws nothing; the timer callback, whose
  guard is \<^verbatim>\<open>move !== undefined\<close>, then places no mark and only lowers the flag.
\<close>

theorem getBestAIMove_finished_undefined:
  assumes "length brd = 9" and "aiM \<noteq> playerM"
    and "winner (calculateWinner brd) \<noteq> None \<or> (\<forall>c \<in> set brd. c \<noteq> None)"
  shows "getBestAIMove_call r brd aiM playerM = Normal Undefined
    \<and> (\<forall>s. squares s = brd \<longrightarrow> aiTimeout r s = s\<lparr>isAITurning := False\<rparr>)"
proof (intro conjI allI impI)
  show "getBestAIMove_call r brd aiM playerM = Normal Undefined"
    by (simp add: getBestAIMove_call_def finished_no_move [OF assms])
next
  fix s :: game
  assume sq: "squares s = brd"
  have "aiMark s \<noteq> (if aiMark s = MarkX then MarkO else MarkX)" by simp
  from finished_no_move [OF assms(1) this assms(3)] sq
  show "aiTimeout r s = s\<lparr>isAITurning := False\<rparr>"
    by (simp add: aiTimeout_def)
qed

theorem getBestAIMove_finished_undefined_witness:
  "length [Some MarkX, Some MarkX, Some MarkX, Some MarkO, Some MarkO, None, None, None, None]
     = 9
   \<and> MarkO \<noteq> MarkX
   \<and> winner (calculateWinner
        [Some MarkX, Some MarkX, Some MarkX, Some MarkO, Some MarkO, None, None, None, None])
      \<noteq> None
   \<and> getBestAIMove_call 0
        [Some MarkX, Some MarkX, Some MarkX, Some MarkO, Some MarkO, None, None, None, None]
        MarkO MarkX = Normal Undefined"
  using getBestAIMove_finished_undefined
    [of "[Some MarkX, Some MarkX, Some MarkX, Some MarkO, Some MarkO, None, None, None, None]"
        MarkO MarkX 0]
  by (simp add: calculateWinner_def lines_def cell_at_def)

lemma seeds_secure: "list_all (secure 8 False) seeds"
  unfolding seeds_def by code_simp

lemma seeds_shape: "list_all (\<lambda>b. length b = 9 \<and> length (getAvailableMoves b) = 7) seeds"
  unfolding seeds_def by (simp add: getAvailableMoves_Cons getAvailableMoves_def)

section \<open>The opening of a game against the AI\<close>

lemma opening_board_cases:
  assumes "opening_board brd"
  shows "brd \<in> {[Some MarkX, None, None, None, None, None, None, None, None],
      [None, Some MarkX, None, None, None, None, None, None, None],
      [None, None, Some MarkX, None, None, None, None, None, None],
      [None, None, None, Some MarkX, None, None, None, None, None],
      [None, None, None, None, Some MarkX, None, None, None, None],
      [None, None, None, None, None, Some MarkX, None, None, None],
      [None, None, None, None, None, None, Some MarkX, None, None],
      [None, None, None, None, None, None, None, Some MarkX, None],
      [None, None, None, None, None, None, None, None, Some MarkX]}"
  using assms unfolding opening_board_def
  by (auto simp: eval_nat_numeral less_Suc_eq)

lemma opening_reply:
  assumes "opening_board brd" and "0 \<le> r" and "r < 1"
  shows "\<exists>m. getBestAIMove r brd MarkO MarkX = Index m \<and> cell_at brd m = None
              \<and> set_cell brd m (Some MarkO) \<in> set seeds"
proof (cases "brd = [None, None, None, None, Some MarkX, None, None, None, None]")
  case True
  have e: "7 \<le> length (getAvailableMoves brd)"
    unfolding True by (simp add: getAvailableMoves_Cons getAvailableMoves_def)
  have corners: "filter (\<lambda>i. cell_at brd i = None) [0, 2, 6, 8] = [0, 2, 6, 8]"
    unfolding True by (simp add: cell_at_def)
  have centre: "cell_at brd 4 \<noteq> None"
    unfolding True by (simp add: cell_at_def)
  have g: "getBestAIMove r brd MarkO MarkX = random_element r [0, 2, 6, 8]"
    unfolding opening_branch [OF e] corners using centre by auto
  from random_element_member [OF assms(2,3), of "[0, 2, 6, 8]"]
  obtain c where "c \<in> set [0, 2, 6, 8]" "random_element r [0, 2, 6, 8] = Index c"
    by auto
  then show ?thesis
    using g unfolding True by (auto simp: cell_at_def set_cell_def seeds_def)
next
  case False
  with opening_board_cases [OF assms(1)]
  have cases8: "brd \<in> {[Some MarkX, None, None, None, None, None, None, None, None],
      [None, Some MarkX, None, None, None, None, None, None, None],
      [None, None, Some MarkX, None, None, None, None, None, None],
      [None, None, None, Some MarkX, None, None, None, None, None],
      [None, None, None, None, None, Some MarkX, None, None, None],
      [None, None, None, None, None, None, Some MarkX, None, None],
      [None, None, None, None, None, None, None, Some MarkX, None],
      [None, None, None, None, None, None, None, None, Some MarkX]}"
    by simp
  then have e: "7 \<le> length (getAvailableMoves brd)"
    by (auto simp: getAvailableMoves_Cons getAvailableMoves_def)
  from cases8 have c4: "cell_at brd 4 = None"
    by (auto simp: cell_at_def)
  then have g: "getBestAIMove r brd MarkO MarkX = Index 4"
    unfolding opening_branch [OF e] by simp
  from cases8 have "set_cell brd 4 (Some MarkO) \<in> set seeds"
    by (auto simp: set_cell_def seeds_def)
  with g c4 show ?thesis by blast
qed

lemma seed_holds:
  assumes "brd \<in> set seeds"
  shows "length brd = 9" and "length (getAvailableMoves brd) = 7"
    and "nonlosing (score (minimax MarkO MarkX brd False))"
proof -
  from assms seeds_shape show len: "length brd = 9"
    and "length (getAvailableMoves brd) = 7"
    by (auto simp: list_all_iff)
  from assms seeds_secure have "secure 8 False brd" by (auto simp: list_all_iff)
  from secure_sound [OF len this]
  show "nonlosing (score (minimax MarkO MarkX brd False))" .
qed

section \<open>The AI does not lose\<close>

lemma searching_ongoing:
  assumes "length brd = 9" and "winner (calculateWinner brd) = None" and "\<not> isDraw brd"
  shows "searching aiM playerM brd"
proof -
  from assms(2,3) have "moveCount brd \<noteq> length brd"
    by (simp add: isDraw_def assms(1))
  then have "\<not> (\<forall>c \<in> set brd. c \<noteq> None)" by (simp add: moveCount_full)
  with assms(2) show ?thesis by (simp add: searching_def list_all_iff)
qed

lemma available_move:
  assumes "idx < length brd" and "cell_at brd idx = None"
  shows "idx \<in> set (getAvailableMoves brd)"
  using assms by (simp add: getAvailableMoves_member cell_at_def)

lemma available_cell:
  assumes "m \<in> set (getAvailableMoves brd)"
  shows "m < length brd" and "cell_at brd m = None"
  using assms by (simp_all add: getAvailableMoves_member cell_at_def)

lemma fewer_moves:
  assumes "m \<in> set (getAvailableMoves brd)"
  shows "length (getAvailableMoves (set_cell brd m (Some v))) < length (getAvailableMoves brd)"
  using emptyCells_set_cell [OF assms] by (simp add: length_getAvailableMoves)

lemma ai_holds_click:
  assumes "ai_holds s" and "mode s = Ai" and "idx < 9"
  shows "ai_holds (handleSquareClick idx s)"
proof (cases "canPlayerMove idx s")
  case False
  with assms(1) show ?thesis by (simp add: handleSquareClick_def)
next
  case True
  let ?b = "squares s"
  from True assms(2) have x: "xIsNext s" and w: "winner (calculateWinner ?b) = None"
    and d: "\<not> isDraw ?b" and c: "cell_at ?b idx = None"
    by (auto simp: canPlayerMove_def game_winner_def split: if_splits)
  from assms(1) have len: "length ?b = 9" by (simp add: ai_holds_def)
  have click: "handleSquareClick idx s
      = s\<lparr>squares := set_cell ?b idx (Some MarkX), xIsNext := False\<rparr>"
    using True x by (simp add: handleSquareClick_def)
  have av: "idx \<in> set (getAvailableMoves ?b)"
    using assms(3) len c by (simp add: available_move)
  have len': "length (set_cell ?b idx (Some MarkX)) = 9"
    using assms(3) len by (simp add: length_set_cell)
  from assms(1) x consider (empty) "?b = replicate 9 None"
    | (later) "length (getAvailableMoves ?b) \<le> 7"
        "nonlosing (score (minimax MarkO MarkX ?b False))"
    by (auto simp: ai_holds_def)
  then show ?thesis
  proof cases
    case empty
    have "opening_board (set_cell ?b idx (Some MarkX))"
      unfolding opening_board_def empty using assms(3)
      by (auto simp: set_cell_def)
    then show ?thesis by (simp add: click ai_holds_def len')
  next
    case later
    have "searching MarkO MarkX ?b" using len w d by (rule searching_ongoing)
    from minimax_min_step [OF this later(2) av]
    have "nonlosing (score (minimax MarkO MarkX (set_cell ?b idx (Some MarkX)) True))" .
    moreover from fewer_moves [OF av, of MarkX] later(1)
    have "length (getAvailableMoves (set_cell ?b idx (Some MarkX))) < 7" by simp
    ultimately show ?thesis by (simp add: click ai_holds_def len')
  qed
qed

lemma ai_holds_timeout:
  assumes "ai_holds s" and "aiMark s = MarkO" and "aiEffectEnabled s"
    and "0 \<le> r" and "r < 1"
  shows "ai_holds (aiTimeout r s)"
proof -
  let ?b = "squares s"
  from assms(3) have x: "\<not> xIsNext s" and w: "winner (calculateWinner ?b) = None"
    and d: "\<not> isDraw ?b"
    by (auto simp: aiEffectEnabled_def game_winner_def)
  from assms(1) have len: "length ?b = 9" by (simp add: ai_holds_def)
  have "\<exists>m. getBestAIMove r ?b MarkO MarkX = Index m \<and> cell_at ?b m = None
      \<and> length (set_cell ?b m (Some MarkO)) = 9
      \<and> length (getAvailableMoves (set_cell ?b m (Some MarkO))) \<le> 7
      \<and> nonlosing (score (minimax MarkO MarkX (set_cell ?b m (Some MarkO)) False))"
  proof -
    from assms(1) x consider (reply) "opening_board ?b"
      | (later) "length (getAvailableMoves ?b) < 7"
          "nonlosing (score (minimax MarkO MarkX ?b True))"
      by (auto simp: ai_holds_def)
    then show ?thesis
    proof cases
      case reply
      from opening_reply [OF reply assms(4,5)]
      obtain m where m: "getBestAIMove r ?b MarkO MarkX = Index m" "cell_at ?b m = None"
        "set_cell ?b m (Some MarkO) \<in> set seeds"
        by blast
      from seed_holds [OF m(3)] m(1,2) show ?thesis by auto
    next
      case later
      have s: "searching MarkO MarkX ?b" using len w d by (rule searching_ongoing)
      from minimax_max_step [OF s later(2)]
      obtain m where m: "m \<in> set (getAvailableMoves ?b)"
        "move (minimax MarkO MarkX ?b True) = Index m"
        "nonlosing (score (minimax MarkO MarkX (set_cell ?b m (Some MarkO)) False))"
        by blast
      from later(1) have "getBestAIMove r ?b MarkO MarkX = Index m"
        by (simp add: getBestAIMove_def m(2))
      moreover from available_cell [OF m(1)] len
      have "cell_at ?b m = None" "length (set_cell ?b m (Some MarkO)) = 9"
        by (simp_all add: length_set_cell)
      moreover from fewer_moves [OF m(1), of MarkO] later(1)
      have "length (getAvailableMoves (set_cell ?b m (Some MarkO))) \<le> 7" by simp
      ultimately show ?thesis using m(3) by blast
    qed
  qed
  then obtain m where m: "getBestAIMove r ?b MarkO MarkX = Index m" "cell_at ?b m = None"
    "length (set_cell ?b m (Some MarkO)) = 9"
    "length (getAvailableMoves (set_cell ?b m (Some MarkO))) \<le> 7"
    "nonlosing (score (minimax MarkO MarkX (set_cell ?b m (Some MarkO)) False))"
    by blast
  have "aiTimeout r s
      = s\<lparr>squares := set_cell ?b m (Some MarkO), xIsNext := True, isAITurning := False\<rparr>"
    using m(1,2) assms(2) by (simp add: aiTimeout_def)
  with m(3,4,5) show ?thesis by (simp add: ai_holds_def)
qed

lemma ai_holds_reset:
  "ai_holds (handleRestart s)" "ai_holds (handleModeChange val s)"
  by (simp_all add: ai_holds_def handleRestart_def handleModeChange_def)

lemma ai_holds_effect: "ai_holds (aiEffect s) = ai_holds s"
  by (simp add: ai_holds_def aiEffect_def)

lemma reachable_aiMark: "reachable s \<Longrightarrow> aiMark s = MarkO"
  by (induction rule: reachable.induct)
     (simp_all add: initial_def handleSquareClick_def handleRestart_def handleModeChange_def
        aiEffect_def aiTimeout_def Let_def split: jsmove.splits)

lemma ai_holds_not_lost:
  assumes "ai_holds s"
  shows "game_winner s \<noteq> Some MarkX"
proof
  assume lost: "game_winner s = Some MarkX"
  let ?b = "squares s"
  from assms have len: "length ?b = 9" by (simp add: ai_holds_def)
  from lost have w: "winner (calculateWinner ?b) = Some MarkX" by (simp add: game_winner_def)
  then have few: "length (getAvailableMoves ?b) < 7"
    using won_few_empty [OF len] by simp
  have "\<not> nonlosing (score (minimax MarkO MarkX ?b isMax))" for isMax
    using w by (rule minimax_lost) simp
  moreover have "?b \<noteq> replicate 9 None"
    using few by (auto simp: getAvailableMoves_Cons getAvailableMoves_def eval_nat_numeral)
  moreover have "\<not> opening_board ?b"
  proof
    assume "opening_board ?b"
    from opening_board_cases [OF this] few show False
      by (auto simp: getAvailableMoves_Cons getAvailableMoves_def)
  qed
  ultimately show False using assms by (auto simp: ai_holds_def split: if_splits)
qed

section \<open>The balance of marks\<close>

lemma countMark_set_cell:
  assumes "cell_at brd i = None"
  shows "countMark m (set_cell brd i (Some m'))
           = countMark m brd + (if m = m' then 1 else 0)"
proof (cases "i < length brd")
  case True
  with assms have emp: "brd ! i = None" by (simp add: cell_at_def)
  have split: "brd = take i brd @ None # drop (Suc i) brd"
    using True emp by (metis id_take_nth_drop)
  have upd: "brd[i := Some m'] = take i brd @ Some m' # drop (Suc i) brd"
    using True by (simp add: upd_conv_take_nth_drop)
  have "countMark m brd = countMark m (take i brd) + countMark m (drop (Suc i) brd)"
    by (subst split) (simp add: countMark_def)
  moreover have "countMark m (brd[i := Some m'])
      = countMark m (take i brd) + (if m = m' then 1 else 0)
        + countMark m (drop (Suc i) brd)"
    by (subst upd) (auto simp: countMark_def)
  ultimately show ?thesis using True by (simp add: set_cell_def)
next
  case False
  then show ?thesis by (auto simp: set_cell_def countMark_def)
qed

lemma random_element_not_Null: "random_element r xs \<noteq> Null"
  by (simp add: random_element_def Let_def)

lemma getBestAIMove_not_Null: "getBestAIMove r brd aiM playerM \<noteq> Null"
  by (simp add: getBestAIMove_def Let_def random_element_not_Null minimax_move_not_Null
        split: list.splits)

lemma balanced_click: "balanced s \<Longrightarrow> balanced (handleSquareClick idx s)"
  by (auto simp: balanced_def handleSquareClick_def canPlayerMove_def countMark_set_cell
        split: if_splits)

lemma balanced_reset: "balanced (handleRestart s)" "balanced (handleModeChange val s)"
  by (simp_all add: balanced_def handleRestart_def handleModeChange_def countMark_def)

lemma balanced_effect: "balanced s \<Longrightarrow> balanced (aiEffect s)"
  by (simp add: balanced_def aiEffect_def)

lemma balanced_timeout:
  assumes "balanced s" and "aiEffectEnabled s"
  shows "balanced (aiTimeout r s)"
proof -
  from assms(2) have x: "\<not> xIsNext s" by (simp add: aiEffectEnabled_def)
  let ?mv = "getBestAIMove r (squares s) (aiMark s) (if aiMark s = MarkX then MarkO else MarkX)"
  show ?thesis
  proof (cases ?mv)
    case Undefined
    with assms(1) show ?thesis by (simp add: aiTimeout_def balanced_def)
  next
    case Null
    with getBestAIMove_not_Null show ?thesis by blast
  next
    case (Index i)
    with assms(1) x show ?thesis
      by (simp add: aiTimeout_def balanced_def countMark_set_cell)
  qed
qed

text \<open>
  C4. In every state reachable from the initial one by clicks, restarts, mode changes and
  AI moves, the number of X cells minus the number of O cells is 0 or 1.
\<close>

theorem mark_counts_differ_by_at_most_one:
  "reachable s \<Longrightarrow>
   int (countMark MarkX (squares s)) - int (countMark MarkO (squares s)) \<in> {0, 1}"
proof -
  assume "reachable s"
  then have "balanced s"
  proof (induction rule: reachable.induct)
    case reach_initial
    show ?case by (simp add: balanced_def initial_def countMark_def)
  next
    case (reach_click s idx)
    then show ?case by (simp add: balanced_click)
  next
    case (reach_restart s)
    show ?case by (rule balanced_reset)
  next
    case (reach_mode s val)
    show ?case by (rule balanced_reset)
  next
    case (reach_effect s)
    then show ?case by (simp add: balanced_effect)
  next
    case (reach_timeout s r)
    then show ?case by (simp add: balanced_timeout)
  qed
  then show ?thesis by (auto simp: balanced_def)
qed

theorem mark_counts_differ_by_at_most_one_witness:
  "reachable (handleSquareClick 0 initial)
   \<and> int (countMark MarkX (squares (handleSquareClick 0 initial)))
       - int (countMark MarkO (squares (handleSquareClick 0 initial))) = 1"
proof -
  have r: "reachable (handleSquareClick 0 initial)"
    by (rule reach_click [OF reach_initial]) simp
  have "squares (handleSquareClick 0 initial)
      = [Some MarkX, None, None, None, None, None, None, None, None]"
    by (simp add: handleSquareClick_def canPlayerMove_def initial_def game_winner_def
          calculateWinner_def lines_def cell_at_def set_cell_def isDraw_def moveCount_def
          eval_nat_numeral)
  with r mark_counts_differ_by_at_most_one [OF r] show ?thesis
    by (simp add: countMark_def)
qed

section \<open>The AI's mark\<close>

lemma getBestAIMove_enabled:
  assumes "length brd = 9" and "0 \<le> r" and "r < 1"
    and "winner (calculateWinner brd) = None" and "\<not> isDraw brd"
  shows "\<exists>i < 9. cell_at brd i = None \<and> getBestAIMove r brd aiM playerM = Index i"
proof (cases "7 \<le> length (getAvailableMoves brd)")
  case True
  note unf = opening_branch [OF True, of r aiM playerM]
  show ?thesis
  proof (cases "cell_at brd 4 = None")
    case True
    with unf show ?thesis by auto
  next
    case centre: False
    show ?thesis
    proof (cases "\<exists>c \<in> set [0, 2, 6, 8]. cell_at brd c = None")
      case True
      then have ne: "filter (\<lambda>i. cell_at brd i = None) [0, 2, 6, 8] \<noteq> []"
        unfolding filter_empty_conv by blast
      from random_element_filter [OF assms(2,3) True]
      obtain c where "c \<in> set [0, 2, 6, 8]" "cell_at brd c = None"
        "random_element r (filter (\<lambda>i. cell_at brd i = None) [0, 2, 6, 8]) = Index c"
        by blast
      moreover from this(1) have "c < 9" by auto
      ultimately show ?thesis using unf centre ne by (auto simp del: filter.simps)
    next
      case False
      then have nc: "filter (\<lambda>i. cell_at brd i = None) [0, 2, 6, 8] = []"
        unfolding filter_empty_conv by auto
      show ?thesis
      proof (cases "\<exists>c \<in> set [1, 3, 5, 7]. cell_at brd c = None")
        case True
        then have ne: "filter (\<lambda>i. cell_at brd i = None) [1, 3, 5, 7] \<noteq> []"
          unfolding filter_empty_conv by blast
        from random_element_filter [OF assms(2,3) True]
        obtain c where "c \<in> set [1, 3, 5, 7]" "cell_at brd c = None"
          "random_element r (filter (\<lambda>i. cell_at brd i = None) [1, 3, 5, 7]) = Index c"
          by blast
        moreover from this(1) have "c < 9" by auto
        ultimately show ?thesis using unf centre nc ne by (auto simp del: filter.simps)
      next
        case False
        then have ns: "filter (\<lambda>i. cell_at brd i = None) [1, 3, 5, 7] = []"
          unfolding filter_empty_conv by auto
        from True obtain i rest where av: "getAvailableMoves brd = i # rest"
          by (cases "getAvailableMoves brd") auto
        then have "i \<in> set (getAvailableMoves brd)" by simp
        from available_cell [OF this] assms(1) have "i < 9" "cell_at brd i = None"
          by simp_all
        then show ?thesis using unf centre nc ns av by (auto simp del: filter.simps)
      qed
    qed
  qed
next
  case False
  then have g: "getBestAIMove r brd aiM playerM = move (minimax aiM playerM brd True)"
    by (simp add: getBestAIMove_def)
  have "searching aiM playerM brd" using assms(1,4,5) by (rule searching_ongoing)
  from minimax_searching_move [OF this, of True]
  obtain m where m: "m \<in> set (getAvailableMoves brd)"
    "move (minimax aiM playerM brd True) = Index m"
    by auto
  from available_cell [OF m(1)] assms(1) m(2) g show ?thesis by auto
qed

lemma reachable_length: "reachable s \<Longrightarrow> length (squares s) = 9"
proof (induction rule: reachable.induct)
  case reach_initial
  show ?case by (simp add: initial_def)
next
  case (reach_click s idx)
  then show ?case by (simp add: handleSquareClick_def length_set_cell)
next
  case (reach_restart s)
  show ?case by (simp add: handleRestart_def)
next
  case (reach_mode s val)
  show ?case by (simp add: handleModeChange_def)
next
  case (reach_effect s)
  then show ?case by (simp add: aiEffect_def)
next
  case (reach_timeout s r)
  from reach_timeout.hyps(3) have "winner (calculateWinner (squares s)) = None"
    "\<not> isDraw (squares s)"
    by (simp_all add: aiEffectEnabled_def game_winner_def)
  from getBestAIMove_enabled [OF reach_timeout.IH reach_timeout.hyps(4,5) this]
  obtain i where "i < 9" "cell_at (squares s) i = None"
    "getBestAIMove r (squares s) (aiMark s) (if aiMark s = MarkX then MarkO else MarkX)
       = Index i"
    by blast
  with reach_timeout.IH show ?case by (simp add: aiTimeout_def length_set_cell)
qed

text \<open>
  C10. In every reachable state the AI's mark is O, and it is still O after each of the
  operations. Whenever the AI effect is enabled (the mode is against the AI, the game is
  not over, it is not X's turn), the timer callback puts the mark O into an empty cell of
  the nine and gives the turn back to X, changing nothing else but the flag.
\<close>

theorem ai_mark_is_O:
  "reachable s \<Longrightarrow>
   aiMark s = MarkO
   \<and> aiMark (handleSquareClick idx s) = MarkO
   \<and> aiMark (handleRestart s) = MarkO
   \<and> aiMark (handleModeChange val s) = MarkO
   \<and> aiMark (aiEffect s) = MarkO
   \<and> aiMark (aiTimeout r s) = MarkO
   \<and> (aiEffectEnabled s \<and> 0 \<le> r \<and> r < 1 \<longrightarrow>
        (\<exists>i < 9. cell_at (squares s) i = None
           \<and> aiTimeout r s
               = s\<lparr>squares := (squares s)[i := Some MarkO], xIsNext := True,
                    isAITurning := False\<rparr>))"
proof (intro conjI impI)
  assume r: "reachable s"
  from reachable_aiMark [OF r] show ai: "aiMark s = MarkO" .
  then show "aiMark (handleSquareClick idx s) = MarkO"
    "aiMark (handleRestart s) = MarkO"
    "aiMark (handleModeChange val s) = MarkO"
    "aiMark (aiEffect s) = MarkO"
    by (simp_all add: handleSquareClick_def handleRestart_def handleModeChange_def
          aiEffect_def)
  from ai show "aiMark (aiTimeout r s) = MarkO"
    by (simp add: aiTimeout_def Let_def split: jsmove.splits)
  assume "aiEffectEnabled s \<and> 0 \<le> r \<and> r < 1"
  then have en: "winner (calculateWinner (squares s)) = None" "\<not> isDraw (squares s)"
    and r0: "0 \<le> r" and r1: "r < 1"
    by (simp_all add: aiEffectEnabled_def game_winner_def)
  note len = reachable_length [OF r]
  from getBestAIMove_enabled [OF len r0 r1 en]
  obtain i where i: "i < 9" "cell_at (squares s) i = None"
    "getBestAIMove r (squares s) (aiMark s) (if aiMark s = MarkX then MarkO else MarkX)
       = Index i"
    by blast
  then have "aiTimeout r s
      = s\<lparr>squares := (squares s)[i := Some MarkO], xIsNext := True, isAITurning := False\<rparr>"
    using len by (simp add: aiTimeout_def set_cell_def)
  with i(1,2) show "\<exists>i < 9. cell_at (squares s) i = None
      \<and> aiTimeout r s
          = s\<lparr>squares := (squares s)[i := Some MarkO], xIsNext := True,
               isAITurning := False\<rparr>"
    by blast
qed

lemma opening_state:
  "aiEffect (handleSquareClick 0 (handleModeChange Ai initial))
     = \<lparr>squares = [Some MarkX, None, None, None, None, None, None, None, None],
        xIsNext = False, mode = Ai, aiMark = MarkO, isAITurning = True\<rparr>"
  by (simp add: aiEffect_def aiEffectEnabled_def handleSquareClick_def canPlayerMove_def
        handleModeChange_def initial_def game_winner_def calculateWinner_def lines_def
        cell_at_def set_cell_def isDraw_def moveCount_def eval_nat_numeral)

lemma opening_state_reachable:
  "reachable (aiEffect (handleSquareClick 0 (handleModeChange Ai initial)))"
  by (rule reach_effect [OF reach_click [OF reach_mode [OF reach_initial]]]) simp

lemma opening_state_enabled:
  "aiEffectEnabled \<lparr>squares = [Some MarkX, None, None, None, None, None, None, None, None],
        xIsNext = False, mode = Ai, aiMark = MarkO, isAITurning = True\<rparr>"
  by (simp add: aiEffectEnabled_def game_winner_def calculateWinner_def lines_def
        cell_at_def isDraw_def moveCount_def)

lemma opening_state_reply:
  "aiTimeout (1 / 2) \<lparr>squares = [Some MarkX, None, None, None, None, None, None, None, None],
        xIsNext = False, mode = Ai, aiMark = MarkO, isAITurning = True\<rparr>
     = \<lparr>squares = [Some MarkX, None, None, None, Some MarkO, None, None, None, None],
        xIsNext = True, mode = Ai, aiMark = MarkO, isAITurning = False\<rparr>"
  by (simp add: aiTimeout_def getBestAIMove_def getAvailableMoves_Cons getAvailableMoves_def
        cell_at_def set_cell_def)

theorem ai_mark_is_O_witness:
  "reachable (aiEffect (handleSquareClick 0 (handleModeChange Ai initial)))
   \<and> aiEffectEnabled (aiEffect (handleSquareClick 0 (handleModeChange Ai initial)))
   \<and> (0::real) \<le> 1 / 2 \<and> (1::real) / 2 < 1
   \<and> aiMark (aiEffect (handleSquareClick 0 (handleModeChange Ai initial))) = MarkO
   \<and> squares (aiTimeout (1 / 2) (aiEffect (handleSquareClick 0 (handleModeChange Ai initial))))
       = [Some MarkX, None, None, None, Some MarkO, None, None, None, None]"
  using ai_mark_is_O [OF opening_state_reachable, of 0 Ai "1 / 2"]
    opening_state_reachable opening_state_enabled
  by (simp add: opening_state opening_state_reply)

section \<open>The AI is never beaten\<close>

text \<open>
  C1. In every reachable state of a game against the AI, X is not the winner: however the
  player clicks and whatever the random numbers, a game against the AI is never lost by O.
  This covers every board of such a game, the final one included.
\<close>

theorem ai_never_loses:
  "reachable s \<Longrightarrow> mode s = Ai \<Longrightarrow> game_winner s \<noteq> Some MarkX"
proof -
  assume r: "reachable s" and m: "mode s = Ai"
  from r have "mode s = Ai \<Longrightarrow> ai_holds s"
  proof (induction rule: reachable.induct)
    case reach_initial
    then show ?case by (simp add: initial_def)
  next
    case (reach_click s idx)
    have "mode (handleSquareClick idx s) = mode s" by (simp add: handleSquareClick_def)
    with reach_click show ?case by (simp add: ai_holds_click)
  next
    case (reach_restart s)
    show ?case by (rule ai_holds_reset)
  next
    case (reach_mode s val)
    show ?case by (rule ai_holds_reset)
  next
    case (reach_effect s)
    have "mode (aiEffect s) = mode s" by (simp add: aiEffect_def)
    with reach_effect show ?case by (simp add: ai_holds_effect)
  next
    case (reach_timeout s r)
    from reach_timeout.hyps(3) have "mode s = Ai" by (simp add: aiEffectEnabled_def)
    from reach_timeout.IH [OF this] reachable_aiMark [OF reach_timeout.hyps(1)]
      reach_timeout.hyps(3,4,5)
    show ?case by (rule ai_holds_timeout)
  qed
  from this [OF m] show ?thesis by (rule ai_holds_not_lost)
qed

theorem ai_never_loses_witness:
  "reachable (aiTimeout (1 / 2) (aiEffect (handleSquareClick 0 (handleModeChange Ai initial))))
   \<and> mode (aiTimeout (1 / 2) (aiEffect (handleSquareClick 0 (handleModeChange Ai initial))))
       = Ai
   \<and> game_winner
        (aiTimeout (1 / 2) (aiEffect (handleSquareClick 0 (handleModeChange Ai initial))))
       \<noteq> Some MarkX"
proof -
  have en: "aiEffectEnabled (aiEffect (handleSquareClick 0 (handleModeChange Ai initial)))"
    unfolding opening_state by (rule opening_state_enabled)
  have r: "reachable
      (aiTimeout (1 / 2) (aiEffect (handleSquareClick 0 (handleModeChange Ai initial))))"
    by (rule reach_timeout [OF opening_state_reachable _ en]) (simp_all add: opening_state)
  have m: "mode
      (aiTimeout (1 / 2) (aiEffect (handleSquareClick 0 (handleModeChange Ai initial)))) = Ai"
    by (simp add: opening_state opening_state_reply)
  from r m ai_never_loses [OF r m] show ?thesis by simp
qed

end
